theory Spec2Isabelle
  imports Complex_Main
begin

section \<open>Binary64 arithmetic\<close>

text \<open>
  \<^verbatim>\<open>normalize_pixel_array\<close> computes in \<^verbatim>\<open>np.float64\<close>. A finite double is a rational
  number, so a double is modelled as a \<^typ>\<open>rat\<close> and every arithmetic operation of the
  source as the exact operation followed by the rounding \<open>fl\<close> to the nearest value with
  a 53-bit significand, ties to the even significand. The exponent range is not bounded:
  the model is the program as long as no intermediate result overflows to infinity or
  falls into the subnormal range, and NaN does not occur.
\<close>

definition rne :: "rat \<Rightarrow> int" where
  "rne x = (let f = \<lfloor>x\<rfloor>; d = x - of_int f in
            if d < 1 / 2 then f
            else if 1 / 2 < d then f + 1
            else if even f then f else f + 1)"

function flp :: "rat \<Rightarrow> rat" where
  "flp x = (if x \<le> 0 then 0
            else if 2 ^ 53 \<le> x then 2 * flp (x / 2)
            else if x < 2 ^ 52 then flp (2 * x) / 2
            else of_int (rne x))"
  by pat_completeness auto

definition flp_size :: "rat \<Rightarrow> nat" where
  "flp_size x = (if 2 ^ 53 \<le> x then nat \<lfloor>x\<rfloor>
                 else if 0 < x \<and> x < 2 ^ 52 then nat \<lceil>2 ^ 52 / x\<rceil> else 0)"

termination flp
proof (relation "measure flp_size")
  show "wf (measure flp_size)" by simp
next
  fix x :: rat
  assume a: "\<not> x \<le> 0" "2 ^ 53 \<le> x"
  have x1: "1 \<le> x" using a(2) by (rule order_trans[rotated]) simp
  then have f: "1 \<le> \<lfloor>x\<rfloor>" by simp
  have "x < of_int \<lfloor>x\<rfloor> + 1" by linarith
  moreover have "(1::rat) \<le> of_int \<lfloor>x\<rfloor>" using f by linarith
  ultimately have "x / 2 < of_int \<lfloor>x\<rfloor>" by linarith
  then have "\<lfloor>x / 2\<rfloor> < \<lfloor>x\<rfloor>" by (simp add: floor_less_iff)
  moreover have "\<not> (x / 2 < 2 ^ 52)" using a(2) by simp
  ultimately show "(x / 2, x) \<in> measure flp_size"
    using a f unfolding flp_size_def in_measure by (simp del: power_numeral)
next
  fix x :: rat
  assume a: "\<not> x \<le> 0" "\<not> 2 ^ 53 \<le> x" "x < 2 ^ 52"
  define y :: rat where "y = 2 ^ 52 / x"
  have p: "0 < x" using a by simp
  have y1: "1 < y" using p a(3) by (simp add: y_def field_simps)
  then have c0: "0 < \<lceil>y\<rceil>" by linarith
  have c1: "\<lceil>2 ^ 52 / (2 * x)\<rceil> < \<lceil>y\<rceil>" if "2 * x < 2 ^ 52"
  proof -
    have "2 < y" using p that by (simp add: y_def field_simps)
    then have "\<lceil>y / 2\<rceil> < \<lceil>y\<rceil>" by linarith
    moreover have "2 ^ 52 / (2 * x) = y / 2" by (simp add: y_def)
    ultimately show ?thesis by (simp only:)
  qed
  have "\<not> 2 ^ 53 \<le> 2 * x" using a(3) by simp
  then show "(2 * x, x) \<in> measure flp_size"
    using a p c0 c1 unfolding flp_size_def in_measure y_def by (simp del: power_numeral)
qed

declare flp.simps [simp del]

definition fl :: "rat \<Rightarrow> rat" where
  "fl x = (if x < 0 then - flp (- x) else flp x)"


section \<open>NumPy arrays\<close>

text \<open>
  An \<^verbatim>\<open>ndarray\<close> is its shape, its element type and its elements in row-major order.
  The elements of every element type are stored as rationals: integers for the integer
  types, doubles for \<^verbatim>\<open>float64\<close>. \<open>UInt b\<close> and \<open>SInt b\<close> are the unsigned and the
  two's-complement integers of \<open>b\<close> bits.
\<close>

datatype error = ValueError | IndexError | OtherError string

datatype dtype = UInt nat | SInt nat | Float64

record ndarray =
  shape :: "nat list"
  dtype :: dtype
  data :: "rat list"

text \<open>Integer arithmetic of an array wraps around in the array's element type.\<close>

fun wrap :: "dtype \<Rightarrow> rat \<Rightarrow> rat" where
  "wrap (UInt b) v = of_int (\<lfloor>v\<rfloor> mod 2 ^ b)"
| "wrap (SInt b) v = of_int ((\<lfloor>v\<rfloor> + 2 ^ (b - 1)) mod 2 ^ b - 2 ^ (b - 1))"
| "wrap Float64 v = fl v"

text \<open>\<^verbatim>\<open>a.astype(np.float64)\<close>: conversion to double rounds to nearest.\<close>

definition astype_float64 :: "ndarray \<Rightarrow> ndarray" where
  "astype_float64 a = a\<lparr>dtype := Float64, data := map fl (data a)\<rparr>"

text \<open>
  \<^verbatim>\<open>a.astype(np.uint8)\<close> on a \<^verbatim>\<open>float64\<close> array: the C conversion discards the fractional
  part. A value outside \<open>[0, 256)\<close> has no defined result in C; the model reduces it
  modulo 256, and the theorems below show that the normalizer never produces one.
\<close>

definition trunc :: "rat \<Rightarrow> int" where
  "trunc x = (if 0 \<le> x then \<lfloor>x\<rfloor> else \<lceil>x\<rceil>)"

definition astype_uint8 :: "ndarray \<Rightarrow> ndarray" where
  "astype_uint8 a = a\<lparr>dtype := UInt 8, data := map (\<lambda>x. of_int (trunc x mod 256)) (data a)\<rparr>"

text \<open>
  \<^verbatim>\<open>np.clip(a, a_min, a_max)\<close> is \<^verbatim>\<open>np.minimum(a_max, np.maximum(a, a_min))\<close>
  elementwise; it is only applied to \<^verbatim>\<open>float64\<close> arrays here.
\<close>

definition np_clip :: "ndarray \<Rightarrow> rat \<Rightarrow> rat \<Rightarrow> ndarray" where
  "np_clip a a_min a_max = a\<lparr>data := map (\<lambda>x. min (max x a_min) a_max) (data a)\<rparr>"

text \<open>\<^verbatim>\<open>a.min()\<close> and \<^verbatim>\<open>a.max()\<close> raise \<^verbatim>\<open>ValueError\<close> on an array without elements.\<close>

definition ndarray_min :: "ndarray \<Rightarrow> error + rat" where
  "ndarray_min a = (case data a of [] \<Rightarrow> Inl ValueError | x # xs \<Rightarrow> Inr (fold min xs x))"

definition ndarray_max :: "ndarray \<Rightarrow> error + rat" where
  "ndarray_max a = (case data a of [] \<Rightarrow> Inl ValueError | x # xs \<Rightarrow> Inr (fold max xs x))"

definition zeros_like :: "ndarray \<Rightarrow> ndarray" where
  "zeros_like a = a\<lparr>data := map (\<lambda>_. 0) (data a)\<rparr>"

text \<open>\<^verbatim>\<open>m - a\<close> for a scalar \<open>m\<close> of the array's own element type.\<close>

definition scalar_minus :: "rat \<Rightarrow> ndarray \<Rightarrow> ndarray" where
  "scalar_minus m a = a\<lparr>data := map (\<lambda>x. wrap (dtype a) (m - x)) (data a)\<rparr>"

section \<open>The intensity normalizer\<close>

text \<open>
  \<^verbatim>\<open>window_width // 2\<close>: Python's floor division. The window values come from pydicom as
  Python floats, whose floor division by 2 is exact.
\<close>

definition floordiv2 :: "rat \<Rightarrow> rat" where
  "floordiv2 w = of_int \<lfloor>w / 2\<rfloor>"

text \<open>
  Lines 32 to 39 of \<^verbatim>\<open>normalize_pixel_array\<close>: the array that is rescaled and the display
  range \<open>(img_min, img_max)\<close>.
\<close>

definition display_range :: "ndarray \<Rightarrow> rat option \<Rightarrow> rat option \<Rightarrow> error + (ndarray \<times> rat \<times> rat)" where
  "display_range pixel_array window_center window_width =
     (case (window_center, window_width) of
        (Some c, Some w) \<Rightarrow>
          let img_min = fl (c - floordiv2 w);
              img_max = fl (c + floordiv2 w)
          in Inr (np_clip pixel_array img_min img_max, img_min, img_max)
      | _ \<Rightarrow>
          (case ndarray_min pixel_array of
             Inl e \<Rightarrow> Inl e
           | Inr img_min \<Rightarrow>
               (case ndarray_max pixel_array of
                  Inl e \<Rightarrow> Inl e
                | Inr img_max \<Rightarrow> Inr (pixel_array, img_min, img_max))))"

text \<open>Line 43: \<^verbatim>\<open>((pixel_array - img_min) / (img_max - img_min)) * 255.0\<close> on one sample.\<close>

definition rescale_sample :: "rat \<Rightarrow> rat \<Rightarrow> rat \<Rightarrow> rat" where
  "rescale_sample img_min img_max x =
     fl (fl (fl (x - img_min) / fl (img_max - img_min)) * 255)"

definition rescale :: "ndarray \<Rightarrow> rat \<Rightarrow> rat \<Rightarrow> ndarray" where
  "rescale a img_min img_max = a\<lparr>data := map (rescale_sample img_min img_max) (data a)\<rparr>"

definition normalize_pixel_array :: "ndarray \<Rightarrow> rat option \<Rightarrow> rat option \<Rightarrow> error + ndarray" where
  "normalize_pixel_array pixel_array window_center window_width =
     (case display_range (astype_float64 pixel_array) window_center window_width of
        Inl e \<Rightarrow> Inl e
      | Inr (pixel_array', img_min, img_max) \<Rightarrow>
          Inr (astype_uint8
                 (if img_max > img_min then rescale pixel_array' img_min img_max
                  else zeros_like pixel_array')))"


section \<open>Converting one file\<close>

text \<open>
  What \<^verbatim>\<open>pydicom.dcmread\<close> returns, as far as \<^verbatim>\<open>convert_dicom_to_png\<close> reads it. An
  attribute that \<^verbatim>\<open>hasattr\<close> does not find is \<open>None\<close>; reading \<^verbatim>\<open>pixel_array\<close> can raise.
  A window value is a number or a \<^verbatim>\<open>MultiValue\<close> of numbers.
\<close>

datatype ds_value = Scalar rat | MultiValue "rat list"

record dataset =
  ds_pixel_array :: "error + ndarray"
  PhotometricInterpretation :: "string option"
  WindowCenter :: "ds_value option"
  WindowWidth :: "ds_value option"

text \<open>Lines 83 to 86: a multi-valued field is replaced by its element 0.\<close>

fun first_value :: "ds_value \<Rightarrow> error + rat" where
  "first_value (Scalar v) = Inr v"
| "first_value (MultiValue []) = Inl IndexError"
| "first_value (MultiValue (v # vs)) = Inr v"

text \<open>Line 73: \<^verbatim>\<open>np.max(pixel_array) - pixel_array\<close>, in the element type of the array.\<close>

definition invert_pixels :: "ndarray \<Rightarrow> error + ndarray" where
  "invert_pixels pixel_array =
     (case ndarray_max pixel_array of
        Inl e \<Rightarrow> Inl e
      | Inr m \<Rightarrow> Inr (scalar_minus m pixel_array))"

text \<open>Lines 70 to 73: the inversion of a \<^verbatim>\<open>MONOCHROME1\<close> image.\<close>

definition photometric_pixels :: "dataset \<Rightarrow> ndarray \<Rightarrow> error + ndarray" where
  "photometric_pixels dicom pixel_array =
     (if PhotometricInterpretation dicom = Some ''MONOCHROME1'' then invert_pixels pixel_array
      else Inr pixel_array)"

text \<open>Lines 76 to 86: the window parameters handed to the normalizer.\<close>

definition window_parameters :: "dataset \<Rightarrow> bool \<Rightarrow> error + (rat option \<times> rat option)" where
  "window_parameters dicom apply_windowing =
     (if apply_windowing then
        (case (WindowCenter dicom, WindowWidth dicom) of
           (Some window_center, Some window_width) \<Rightarrow>
             (case first_value window_center of
                Inl e \<Rightarrow> Inl e
              | Inr c \<Rightarrow>
                  (case first_value window_width of
                     Inl e \<Rightarrow> Inl e
                   | Inr w \<Rightarrow> Inr (Some c, Some w)))
         | _ \<Rightarrow> Inr (None, None))
      else Inr (None, None))"

text \<open>Lines 67 to 89: from the dataset to the normalized array.\<close>

definition normalized_array_of :: "dataset \<Rightarrow> bool \<Rightarrow> error + ndarray" where
  "normalized_array_of dicom apply_windowing =
     (case ds_pixel_array dicom of
        Inl e \<Rightarrow> Inl e
      | Inr pixel_array \<Rightarrow>
          (case photometric_pixels dicom pixel_array of
             Inl e \<Rightarrow> Inl e
           | Inr pixel_array' \<Rightarrow>
               (case window_parameters dicom apply_windowing of
                  Inl e \<Rightarrow> Inl e
                | Inr (window_center, window_width) \<Rightarrow>
                    normalize_pixel_array pixel_array' window_center window_width)))"








section \<open>Converting a directory\<close>





section \<open>An example directory\<close>





section \<open>Formulations of the specification\<close>

text \<open>
  The specification compares the normalizer with two compositions that the program does
  not contain. They are defined here in the specification's words, from the operations
  above.

  \<open>clip_to_window\<close> is the specification's \<^verbatim>\<open>clip(pixels, c - w//2, c + w//2)\<close>.
\<close>

definition clip_to_window :: "ndarray \<Rightarrow> rat \<Rightarrow> rat \<Rightarrow> ndarray" where
  "clip_to_window pixels c w =
     np_clip (astype_float64 pixels) (fl (c - floordiv2 w)) (fl (c + floordiv2 w))"

text \<open>Inverting, then windowing: the order of \<^verbatim>\<open>convert_dicom_to_png\<close>.\<close>

definition invert_then_window :: "ndarray \<Rightarrow> rat \<Rightarrow> rat \<Rightarrow> error + ndarray" where
  "invert_then_window pixels c w =
     (case invert_pixels pixels of
        Inl e \<Rightarrow> Inl e
      | Inr inverted \<Rightarrow> normalize_pixel_array inverted (Some c) (Some w))"

text \<open>Windowing, then inverting: the other order, which the program does not compute.\<close>

definition window_then_invert :: "ndarray \<Rightarrow> rat \<Rightarrow> rat \<Rightarrow> error + ndarray" where
  "window_then_invert pixels c w =
     (case normalize_pixel_array pixels (Some c) (Some w) of
        Inl e \<Rightarrow> Inl e
      | Inr windowed \<Rightarrow> invert_pixels windowed)"


section \<open>Properties of the rounding\<close>

lemma rne_floor_le: "\<lfloor>x\<rfloor> \<le> rne x"
  by (simp add: rne_def Let_def)

lemma rne_le_floor1: "rne x \<le> \<lfloor>x\<rfloor> + 1"
  by (simp add: rne_def Let_def)

lemma rne_of_int [simp]: "rne (of_int n) = n"
  by (simp add: rne_def Let_def)

lemma rne_mono: "x \<le> y \<Longrightarrow> rne x \<le> rne y"
proof (cases "\<lfloor>x\<rfloor> < \<lfloor>y\<rfloor>")
  case True
  have "rne x \<le> \<lfloor>x\<rfloor> + 1" by (rule rne_le_floor1)
  also have "\<dots> \<le> \<lfloor>y\<rfloor>" using True by simp
  also have "\<dots> \<le> rne y" by (rule rne_floor_le)
  finally show ?thesis .
next
  case False
  assume xy: "x \<le> y"
  then have "\<lfloor>x\<rfloor> \<le> \<lfloor>y\<rfloor>" by (rule floor_mono)
  with False have eq: "\<lfloor>x\<rfloor> = \<lfloor>y\<rfloor>" by simp
  then show ?thesis using xy by (auto simp: rne_def Let_def)
qed

lemma rne_ge: "of_int n \<le> x \<Longrightarrow> n \<le> rne x"
  using rne_mono [of "of_int n" x] by simp

lemma rne_le: "x \<le> of_int n \<Longrightarrow> rne x \<le> n"
  using rne_mono [of x "of_int n"] by simp

lemma flp_nonpos: "x \<le> 0 \<Longrightarrow> flp x = 0"
  by (simp add: flp.simps [of x])

lemma flp_base: "2 ^ 52 \<le> x \<Longrightarrow> x < 2 ^ 53 \<Longrightarrow> flp x = of_int (rne x)"
  by (simp add: flp.simps [of x])

lemma flp_double: "flp (2 * x) = 2 * flp x"
proof (cases "x \<le> 0")
  case True
  then show ?thesis by (simp add: flp_nonpos)
next
  case False
  show ?thesis
  proof (cases "2 ^ 53 \<le> 2 * x")
    case True
    then show ?thesis using False by (simp add: flp.simps [of "2 * x"])
  next
    case b: False
    then have "x < 2 ^ 52" by simp
    then show ?thesis using False by (simp add: flp.simps [of x])
  qed
qed

lemma flp_half: "flp (x / 2) = flp x / 2"
  using flp_double [of "x / 2"] by simp

lemma flp_pow: "flp (x * 2 ^ n) = flp x * 2 ^ n"
proof (induction n)
  case 0
  show ?case by simp
next
  case (Suc n)
  have "flp (x * 2 ^ Suc n) = flp (2 * (x * 2 ^ n))" by (simp add: mult.commute mult.left_commute)
  also have "\<dots> = 2 * flp (x * 2 ^ n)" by (rule flp_double)
  finally show ?case using Suc by simp
qed

lemma flp_div_pow: "flp (x / 2 ^ n) = flp x / 2 ^ n"
  using flp_pow [of "x / 2 ^ n" n] by simp

lemma flp_powi: "flp (x * 2 powi k) = flp x * 2 powi k"
proof (cases "0 \<le> k")
  case True
  then show ?thesis by (simp add: power_int_nonneg_exp flp_pow)
next
  case False
  then have "k = - int (nat (- k))" by simp
  then obtain n where k: "k = - int n" ..
  show ?thesis by (simp add: k power_int_minus flp_div_pow divide_inverse [symmetric])
qed


lemma flp_exponent: "0 < (x::rat) \<Longrightarrow> \<exists>k. 2 ^ 52 \<le> x * 2 powi k \<and> x * 2 powi k < 2 ^ 53"
proof (induction x rule: flp.induct)
  case (1 x)
  show ?case
  proof (cases "2 ^ 53 \<le> x")
    case True
    with 1 obtain k where k: "2 ^ 52 \<le> x / 2 * 2 powi k" "x / 2 * 2 powi k < 2 ^ 53" by auto
    have "x * 2 powi (k - 1) = x / 2 * 2 powi k" by (simp add: power_int_diff)
    with k show ?thesis by metis
  next
    case False
    show ?thesis
    proof (cases "x < 2 ^ 52")
      case True
      with 1 False obtain k where k: "2 ^ 52 \<le> 2 * x * 2 powi k" "2 * x * 2 powi k < 2 ^ 53" by auto
      have "x * 2 powi (k + 1) = 2 * x * 2 powi k" by (simp add: power_int_add)
      with k show ?thesis by metis
    next
      case b: False
      have "2 ^ 52 \<le> x * 2 powi 0 \<and> x * 2 powi 0 < 2 ^ 53" using False b by simp
      then show ?thesis by blast
    qed
  qed
qed

lemma flp_eval:
  assumes "2 ^ 52 \<le> x * 2 powi k" "x * 2 powi k < 2 ^ 53"
  shows "flp x = of_int (rne (x * 2 powi k)) / 2 powi k"
proof -
  have "flp x * 2 powi k = of_int (rne (x * 2 powi k))"
    using assms by (simp add: flp_powi [symmetric] flp_base)
  then show ?thesis by (simp add: field_simps)
qed

lemma flp_pos: assumes "0 < x" shows "0 < flp x"
proof -
  obtain k where k: "2 ^ 52 \<le> x * 2 powi k" "x * 2 powi k < 2 ^ 53"
    using flp_exponent [OF assms] by blast
  have "(2 ^ 52 :: rat) = of_int (2 ^ 52)" by simp
  then have "2 ^ 52 \<le> rne (x * 2 powi k)" using k(1) by (metis rne_ge)
  then have "0 < rne (x * 2 powi k)" by simp
  then show ?thesis by (simp add: flp_eval [OF k])
qed

lemma flp_nonneg: "0 \<le> flp x"
  using flp_pos [of x] flp_nonpos [of x] by (cases "0 < x") simp_all

lemma flp_mono: assumes "x \<le> y" shows "flp x \<le> flp y"
proof (cases "0 < x")
  case False
  then show ?thesis by (simp add: flp_nonpos flp_nonneg)
next
  case True
  then have y: "0 < y" using assms by simp
  obtain i where i: "2 ^ 52 \<le> x * 2 powi i" "x * 2 powi i < 2 ^ 53"
    using flp_exponent [OF True] by blast
  obtain j where j: "2 ^ 52 \<le> y * 2 powi j" "y * 2 powi j < 2 ^ 53"
    using flp_exponent [OF y] by blast
  have c: "(2 ^ 52 :: rat) = of_int (2 ^ 52)" "(2 ^ 53 :: rat) = of_int (2 ^ 53)" by simp_all
  have lo: "\<And>z. 2 ^ 52 \<le> z \<Longrightarrow> (2 ^ 52 :: rat) \<le> of_int (rne z)"
  proof -
    fix z :: rat assume "2 ^ 52 \<le> z"
    then have "(2 ^ 52 :: int) \<le> rne z" by (intro rne_ge) simp
    then have "(of_int (2 ^ 52) :: rat) \<le> of_int (rne z)" by (simp only: of_int_le_iff)
    then show "(2 ^ 52 :: rat) \<le> of_int (rne z)" by simp
  qed
  have hi: "\<And>z. z < 2 ^ 53 \<Longrightarrow> of_int (rne z) \<le> (2 ^ 53 :: rat)"
  proof -
    fix z :: rat assume "z < 2 ^ 53"
    then have "rne z \<le> (2 ^ 53 :: int)" by (intro rne_le) simp
    then have "(of_int (rne z) :: rat) \<le> of_int (2 ^ 53)" by (simp only: of_int_le_iff)
    then show "of_int (rne z) \<le> (2 ^ 53 :: rat)" by simp
  qed
  have ij: "j \<le> i"
  proof (rule ccontr)
    assume "\<not> j \<le> i"
    then have "i + 1 \<le> j" by simp
    then have "(2::rat) powi (i + 1) \<le> 2 powi j" by (intro power_int_increasing) simp_all
    then have "x * 2 powi (i + 1) \<le> x * 2 powi j" using True by simp
    moreover have "x * 2 powi (i + 1) = 2 * (x * 2 powi i)" by (simp add: power_int_add)
    moreover have "x * 2 powi j \<le> y * 2 powi j" using assms by simp
    ultimately have "2 * (x * 2 powi i) < 2 ^ 53" using j(2) by linarith
    then show False using i(1) by simp
  qed
  show ?thesis
  proof (cases "i = j")
    case True
    have "x * 2 powi j \<le> y * 2 powi j" using assms by simp
    then have "rne (x * 2 powi j) \<le> rne (y * 2 powi j)" by (rule rne_mono)
    then show ?thesis using i j unfolding True
      by (simp add: flp_eval divide_right_mono)
  next
    case False
    with ij have "j + 1 \<le> i" by simp
    then have "(2::rat) powi (j + 1) \<le> 2 powi i" by (intro power_int_increasing) simp_all
    then have p: "2 * 2 powi j \<le> (2::rat) powi i" by (simp add: power_int_add)
    have "flp x \<le> 2 ^ 53 / 2 powi i"
      using hi [OF i(2)] by (simp add: flp_eval [OF i] divide_right_mono)
    also have "\<dots> \<le> 2 ^ 52 / 2 powi j"
      using p by (simp add: field_simps)
    also have "\<dots> \<le> flp y"
      using lo [OF j(1)] by (simp add: flp_eval [OF j] divide_right_mono)
    finally show ?thesis .
  qed
qed


lemma flp_int_exact: "0 \<le> x \<Longrightarrow> x \<le> 2 ^ 53 \<Longrightarrow> x \<in> \<int> \<Longrightarrow> flp x = x"
proof (induction x rule: flp.induct)
  case (1 x)
  show ?case
  proof (cases "x \<le> 0")
    case True
    with 1 show ?thesis by (simp add: flp_nonpos)
  next
    case pos: False
    show ?thesis
    proof (cases "2 ^ 53 \<le> x")
      case True
      with 1 have x: "x = 2 ^ 53" by simp
      have "flp (2 ^ 52 :: rat) = of_int (rne (2 ^ 52))" by (rule flp_base) simp_all
      also have "(2 ^ 52 :: rat) = of_int (2 ^ 52)" by simp
      finally have "flp (of_int (2 ^ 52)) = of_int (2 ^ 52)" by (simp only: rne_of_int)
      then have "flp (2 * of_int (2 ^ 52)) = 2 * of_int (2 ^ 52)" by (simp only: flp_double)
      then show ?thesis by (simp add: x)
    next
      case lt: False
      show ?thesis
      proof (cases "x < 2 ^ 52")
        case True
        have "2 * x \<in> \<int>" using 1 by simp
        moreover have "2 * x \<le> 2 ^ 53" "0 \<le> 2 * x" using True pos by simp_all
        ultimately have "flp (2 * x) = 2 * x" using 1 pos lt True by simp
        then show ?thesis by (simp add: flp_double)
      next
        case False
        from 1 obtain n where n: "x = of_int n" by (auto elim: Ints_cases)
        have "flp x = of_int (rne x)" using lt False by (intro flp_base) simp_all
        then show ?thesis by (simp add: n)
      qed
    qed
  qed
qed

lemma flp_exact:
  assumes "0 \<le> x" "x * 2 powi k \<le> 2 ^ 53" "x * 2 powi k \<in> \<int>"
  shows "flp x = x"
proof -
  have "flp (x * 2 powi k) = x * 2 powi k"
    using assms by (intro flp_int_exact) simp_all
  then show ?thesis by (simp add: flp_powi)
qed

lemma flp_idem: "flp (flp x) = flp x"
proof (cases "0 < x")
  case False
  then show ?thesis by (simp add: flp_nonpos)
next
  case True
  obtain k where k: "2 ^ 52 \<le> x * 2 powi k" "x * 2 powi k < 2 ^ 53"
    using flp_exponent [OF True] by blast
  have "rne (x * 2 powi k) \<le> (2 ^ 53 :: int)" using k(2) by (intro rne_le) simp
  then have "(of_int (rne (x * 2 powi k)) :: rat) \<le> of_int (2 ^ 53)" by (simp only: of_int_le_iff)
  then have le: "flp x * 2 powi k \<le> 2 ^ 53" by (simp add: flp_eval [OF k])
  have "flp x * 2 powi k \<in> \<int>" by (simp add: flp_eval [OF k])
  with le show ?thesis by (intro flp_exact [where k = k]) (simp_all add: flp_nonneg)
qed

lemma fl_zero [simp]: "fl 0 = 0"
  by (simp add: fl_def flp_nonpos)

lemma fl_minus: "fl (- x) = - fl x"
  by (cases "x = 0") (auto simp: fl_def flp_nonpos)

lemma fl_nonneg: "0 \<le> x \<Longrightarrow> 0 \<le> fl x"
  by (simp add: fl_def flp_nonneg)

lemma fl_pos: "0 < x \<Longrightarrow> 0 < fl x"
  by (simp add: fl_def flp_pos)

lemma fl_nonpos: "x \<le> 0 \<Longrightarrow> fl x \<le> 0"
  by (cases "x = 0") (simp_all add: fl_def flp_nonneg flp_nonpos)

lemma fl_mono: assumes "x \<le> y" shows "fl x \<le> fl y"
proof (cases "x < 0")
  case False
  with assms show ?thesis by (simp add: fl_def flp_mono)
next
  case True
  show ?thesis
  proof (cases "y < 0")
    case False
    have "fl x \<le> 0" using True by (intro fl_nonpos) simp
    also have "0 \<le> fl y" using False by (intro fl_nonneg) simp
    finally show ?thesis .
  next
    case y: True
    have "flp (- y) \<le> flp (- x)" using assms by (intro flp_mono) simp
    then show ?thesis using True y by (simp add: fl_def)
  qed
qed

lemma fl_idem [simp]: "fl (fl x) = fl x"
proof (cases "x < 0")
  case False
  then show ?thesis using flp_nonneg [of x] by (simp add: fl_def flp_idem)
next
  case True
  then have "0 < flp (- x)" by (intro flp_pos) simp
  then show ?thesis using True by (simp add: fl_def flp_idem)
qed

lemma fl_exact:
  assumes "\<bar>x\<bar> * 2 powi k \<le> 2 ^ 53" "x * 2 powi k \<in> \<int>"
  shows "fl x = x"
proof (cases "x < 0")
  case False
  then show ?thesis using assms by (simp add: fl_def flp_exact [where k = k])
next
  case True
  have "- x * 2 powi k \<in> \<int>" using assms(2) by (metis Ints_minus mult_minus_left)
  then have "flp (- x) = - x" using True assms(1) by (intro flp_exact [where k = k]) simp_all
  then show ?thesis using True by (simp add: fl_def)
qed

lemma fl_int: "x \<in> \<int> \<Longrightarrow> \<bar>x\<bar> \<le> 2 ^ 53 \<Longrightarrow> fl x = x"
  using fl_exact [of x 0] by simp

lemma fl_eval:
  assumes "0 < x" "2 ^ 52 \<le> x * 2 powi k" "x * 2 powi k < 2 ^ 53"
  shows "fl x = of_int (rne (x * 2 powi k)) / 2 powi k"
  using assms by (simp add: fl_def flp_eval)

lemma floor_rat_numeral_div [simp]:
  "\<lfloor>numeral a / numeral b :: rat\<rfloor> = numeral a div numeral b"
  by (metis floor_divide_of_int_eq of_int_numeral)

lemma floor_rat_neg_numeral_div [simp]:
  "\<lfloor>- (numeral a / numeral b) :: rat\<rfloor> = - numeral a div numeral b"
  by (metis divide_minus_left floor_divide_of_int_eq of_int_neg_numeral of_int_numeral)

lemma flp_up: "2 ^ 53 \<le> x \<Longrightarrow> flp x = 2 * flp (x / 2)"
  by (subst flp.simps) (simp del: power_numeral, simp)

lemma flp_down: "0 < x \<Longrightarrow> x < 2 ^ 52 \<Longrightarrow> flp x = flp (2 * x) / 2"
  by (subst flp.simps) simp

lemmas fl_compute = fl_def flp_up flp_down flp_base flp_nonpos rne_def Let_def



section \<open>Properties of the normalizer\<close>

lemma display_range_window:
  "display_range q (Some c) (Some w) =
     Inr (np_clip q (fl (c - floordiv2 w)) (fl (c + floordiv2 w)),
          fl (c - floordiv2 w), fl (c + floordiv2 w))"
  by (simp add: display_range_def Let_def)

lemma display_range_full:
  "wc = None \<or> ww = None \<Longrightarrow>
   display_range q wc ww =
     (case data q of [] \<Rightarrow> Inl ValueError
      | x # xs \<Rightarrow> Inr (q, fold min xs x, fold max xs x))"
  by (auto simp: display_range_def ndarray_min_def ndarray_max_def split: option.splits list.splits)

lemma display_range_array:
  assumes "display_range q wc ww = Inr (a, lo, hi)"
  shows "\<exists>ys. a = q\<lparr>data := ys\<rparr> \<and> length ys = length (data q)"
proof (cases "wc = None \<or> ww = None")
  case True
  then have "a = q" using assms by (auto simp: display_range_full split: list.splits)
  then have "a = q\<lparr>data := data q\<rparr>" by simp
  then show ?thesis by blast
next
  case False
  then obtain c w where "wc = Some c" "ww = Some w" by auto
  then have "a = q\<lparr>data := map (\<lambda>x. min (max x lo) hi) (data q)\<rparr>"
    using assms by (auto simp: display_range_window np_clip_def)
  then show ?thesis by (metis length_map)
qed

lemma normalize_degenerate:
  assumes "display_range (astype_float64 p) wc ww = Inr (a, lo, hi)" "hi \<le> lo"
  shows "normalize_pixel_array p wc ww = Inr (p\<lparr>dtype := UInt 8, data := replicate (length (data p)) 0\<rparr>)"
proof -
  obtain ys where a: "a = (astype_float64 p)\<lparr>data := ys\<rparr>" and l: "length ys = length (data p)"
    using display_range_array [OF assms(1)] by (auto simp: astype_float64_def)
  have "map (\<lambda>x. 0::rat) ys = replicate (length (data p)) 0"
    using l by (simp add: map_replicate_const)
  then show ?thesis using assms
    by (simp add: normalize_pixel_array_def a zeros_like_def astype_uint8_def astype_float64_def
        trunc_def)
qed

lemma window_below_two:
  assumes "w < 2"
  shows "fl (c + floordiv2 w) \<le> fl (c - floordiv2 w)"
proof -
  have "w / 2 < 1" using assms by simp
  then have "\<lfloor>w / 2\<rfloor> < 1" by (simp add: floor_less_iff)
  then have "floordiv2 w \<le> 0" by (simp add: floordiv2_def)
  then have "c + floordiv2 w \<le> c - floordiv2 w" by simp
  then show ?thesis by (rule fl_mono)
qed


lemma fl_one [simp]: "fl 1 = 1"
  by (rule fl_int) simp_all

lemma fl_255 [simp]: "fl 255 = 255"
  by (rule fl_int) simp_all

lemma rescale_sample_mono:
  assumes "lo < hi" "x \<le> y"
  shows "rescale_sample lo hi x \<le> rescale_sample lo hi y"
proof -
  have d: "0 < fl (hi - lo)" using assms(1) by (intro fl_pos) simp
  have "fl (x - lo) \<le> fl (y - lo)" using assms(2) by (intro fl_mono) simp
  then have "fl (x - lo) / fl (hi - lo) \<le> fl (y - lo) / fl (hi - lo)"
    using d by (simp add: divide_right_mono)
  then have "fl (fl (x - lo) / fl (hi - lo)) \<le> fl (fl (y - lo) / fl (hi - lo))" by (rule fl_mono)
  then have "fl (fl (x - lo) / fl (hi - lo)) * 255 \<le> fl (fl (y - lo) / fl (hi - lo)) * 255" by simp
  then show ?thesis unfolding rescale_sample_def by (rule fl_mono)
qed

lemma rescale_sample_at_min: "rescale_sample lo hi lo = 0"
  by (simp add: rescale_sample_def)

lemma rescale_sample_at_max:
  assumes "lo < hi"
  shows "rescale_sample lo hi hi = 255"
proof -
  have "0 < fl (hi - lo)" using assms by (intro fl_pos) simp
  then show ?thesis by (simp add: rescale_sample_def)
qed

lemma rescale_sample_range:
  assumes "lo < hi" "lo \<le> x" "x \<le> hi"
  shows "0 \<le> rescale_sample lo hi x" "rescale_sample lo hi x \<le> 255"
  using rescale_sample_mono [OF assms(1) assms(2)] rescale_sample_mono [OF assms(1) assms(3)]
  by (simp_all add: rescale_sample_at_min rescale_sample_at_max [OF assms(1)])

lemma trunc_range:
  assumes "0 \<le> x" "x \<le> 255"
  shows "0 \<le> trunc x" "trunc x \<le> 255" "trunc x mod 256 = trunc x"
proof -
  show a: "0 \<le> trunc x" using assms by (simp add: trunc_def)
  have "\<lfloor>x\<rfloor> \<le> 255" using assms(2) by (simp add: floor_le_iff)
  then show b: "trunc x \<le> 255" using assms by (simp add: trunc_def)
  show "trunc x mod 256 = trunc x" using a b by simp
qed

lemma fold_min_Min: "fold min xs (x::rat) = Min (set (x # xs))"
  by (rule Min.set_eq_fold [symmetric])

lemma fold_max_Max: "fold max xs (x::rat) = Max (set (x # xs))"
  by (rule Max.set_eq_fold [symmetric])

lemma display_range_samples:
  assumes "display_range q wc ww = Inr (a, lo, hi)" "lo < hi"
  shows "\<exists>f. data a = map f (data q) \<and> (\<forall>x y. x \<le> y \<longrightarrow> f x \<le> f y) \<and>
             (\<forall>x \<in> set (data q). lo \<le> f x \<and> f x \<le> hi)"
proof (cases "wc = None \<or> ww = None")
  case True
  then obtain x xs where q: "data q = x # xs" and a: "a = q"
    and lo: "lo = fold min xs x" and hi: "hi = fold max xs x"
    using assms(1) by (auto simp: display_range_full split: list.splits)
  have "\<forall>z \<in> set (data q). lo \<le> z \<and> z \<le> hi"
    unfolding lo hi fold_min_Min fold_max_Max q by simp
  then have "data a = map (\<lambda>z. z) (data q) \<and> (\<forall>x y::rat. x \<le> y \<longrightarrow> x \<le> y) \<and>
             (\<forall>x \<in> set (data q). lo \<le> x \<and> x \<le> hi)"
    by (simp add: a)
  then show ?thesis by blast
next
  case False
  then obtain c w where "wc = Some c" "ww = Some w" by auto
  then have a: "data a = map (\<lambda>x. min (max x lo) hi) (data q)"
    using assms(1) by (auto simp: display_range_window np_clip_def)
  have "\<forall>x y::rat. x \<le> y \<longrightarrow> min (max x lo) hi \<le> min (max y lo) hi" by auto
  moreover have "\<forall>x \<in> set (data q). lo \<le> min (max x lo) hi \<and> min (max x lo) hi \<le> hi"
    using assms(2) by auto
  ultimately show ?thesis using a by blast
qed

lemma normalize_nondegenerate:
  assumes "display_range (astype_float64 p) wc ww = Inr (a, lo, hi)" "lo < hi"
  shows "normalize_pixel_array p wc ww =
           Inr (p\<lparr>dtype := UInt 8,
                  data := map (\<lambda>x. of_int (trunc (rescale_sample lo hi x) mod 256)) (data a)\<rparr>)"
proof -
  obtain ys where a: "a = (astype_float64 p)\<lparr>data := ys\<rparr>"
    using display_range_array [OF assms(1)] by auto
  show ?thesis using assms
    by (simp add: normalize_pixel_array_def a rescale_def astype_uint8_def astype_float64_def)
qed

lemma normalize_of_range:
  assumes "display_range (astype_float64 p) wc ww = Inr (a, lo, hi)"
  shows "normalize_pixel_array p wc ww =
           Inr (p\<lparr>dtype := UInt 8,
                  data := (if lo < hi
                           then map (\<lambda>x. of_int (trunc (rescale_sample lo hi x) mod 256)) (data a)
                           else replicate (length (data p)) 0)\<rparr>)"
  using normalize_nondegenerate [OF assms] normalize_degenerate [OF assms]
  by (cases "lo < hi") simp_all

lemma display_range_defined:
  assumes "data p \<noteq> [] \<or> (wc \<noteq> None \<and> ww \<noteq> None)"
  shows "\<exists>a lo hi. display_range (astype_float64 p) wc ww = Inr (a, lo, hi)"
proof (cases "wc = None \<or> ww = None")
  case True
  with assms have "data (astype_float64 p) \<noteq> []" by (auto simp: astype_float64_def)
  then show ?thesis using True by (auto simp: display_range_full split: list.splits)
next
  case False
  then obtain c w where "wc = Some c" "ww = Some w" by auto
  then show ?thesis by (simp add: display_range_window)
qed

lemma display_range_undefined:
  assumes "data p = []" "wc = None \<or> ww = None"
  shows "normalize_pixel_array p wc ww = Inl ValueError"
  using assms by (simp add: normalize_pixel_array_def display_range_full astype_float64_def)

lemmas normalize_compute =
  normalize_pixel_array_def display_range_def astype_float64_def astype_uint8_def np_clip_def
  ndarray_min_def ndarray_max_def zeros_like_def rescale_def rescale_sample_def floordiv2_def
  trunc_def fl_compute

lemma fl_min: "fl (min a b) = min (fl a) (fl b)"
  using fl_mono [of a b] fl_mono [of b a] by (cases "a \<le> b") (simp_all add: min_def)

lemma fl_max: "fl (max a b) = max (fl a) (fl b)"
  using fl_mono [of a b] fl_mono [of b a] by (cases "a \<le> b") (simp_all add: max_def)

lemma astype_float64_clip:
  "astype_float64 (np_clip (astype_float64 p) (fl a) (fl b)) = np_clip (astype_float64 p) (fl a) (fl b)"
  by (simp add: astype_float64_def np_clip_def fl_min fl_max)

lemma clip_inverted:
  assumes "hi \<le> lo"
  shows "np_clip q lo hi = q\<lparr>data := replicate (length (data q)) hi\<rparr>"
proof -
  have "map (\<lambda>x. min (max x lo) hi) (data q) = map (\<lambda>x. hi) (data q)"
    using assms by (intro map_cong) auto
  then show ?thesis by (simp add: np_clip_def map_replicate_const)
qed

lemma clipped_min:
  assumes "lo < hi" "x \<in> set xs" "x \<le> lo"
  shows "Min (set (map (\<lambda>x. min (max x lo) hi) xs)) = (lo::rat)"
proof (rule Min_eqI)
  show "finite (set (map (\<lambda>x. min (max x lo) hi) xs))" by simp
  show "\<And>y. y \<in> set (map (\<lambda>x. min (max x lo) hi) xs) \<Longrightarrow> lo \<le> y" using assms(1) by auto
  have "min (max x lo) hi = lo" using assms by (simp add: max_def min_def)
  then show "lo \<in> set (map (\<lambda>x. min (max x lo) hi) xs)" using assms(2) by force
qed

lemma clipped_max:
  assumes "lo < hi" "x \<in> set xs" "hi \<le> x"
  shows "Max (set (map (\<lambda>x. min (max x lo) hi) xs)) = (hi::rat)"
proof (rule Max_eqI)
  show "finite (set (map (\<lambda>x. min (max x lo) hi) xs))" by simp
  show "\<And>y. y \<in> set (map (\<lambda>x. min (max x lo) hi) xs) \<Longrightarrow> y \<le> hi" by auto
  have "min (max x lo) hi = hi" using assms by (simp add: max_def min_def)
  then show "hi \<in> set (map (\<lambda>x. min (max x lo) hi) xs)" using assms(2) by force
qed

lemma display_range_nonempty:
  assumes "data q \<noteq> []"
  shows "display_range q None None = Inr (q, Min (set (data q)), Max (set (data q)))"
proof -
  obtain x xs where q: "data q = x # xs" using assms by (cases "data q") auto
  show ?thesis
    unfolding q by (simp add: display_range_full q fold_min_Min fold_max_Max)
qed

lemma invert_pixels_nonempty:
  assumes "data p \<noteq> []"
  shows "invert_pixels p =
           Inr (p\<lparr>data := map (\<lambda>x. wrap (dtype p) (Max (set (data p)) - x)) (data p)\<rparr>)"
proof -
  obtain x xs where q: "data p = x # xs" using assms by (cases "data p") auto
  have "fold max xs x = Max (set (data p))" unfolding q by (rule fold_max_Max)
  then show ?thesis by (simp add: invert_pixels_def ndarray_max_def q scalar_minus_def)
qed

lemma wrap_unsigned_exact:
  assumes "x \<in> \<int>" "m \<in> \<int>" "0 \<le> x" "x \<le> m" "m < 2 ^ b"
  shows "wrap (UInt b) (m - x) = m - x"
proof -
  obtain i j where x: "x = of_int i" and m: "m = of_int j" using assms by (auto elim!: Ints_cases)
  have f: "\<lfloor>m - x\<rfloor> = j - i" unfolding x m by (simp flip: of_int_diff)
  have i0: "0 \<le> i" using assms(3) by (simp add: x)
  have ij: "i \<le> j" using assms(4) by (simp add: x m)
  have "(of_int j :: rat) < of_int (2 ^ b)" using assms(5) by (simp add: m)
  then have jb: "j < 2 ^ b" by (simp only: of_int_less_iff)
  have "(j - i) mod 2 ^ b = j - i" using i0 ij jb by (intro mod_pos_pos_trivial) simp_all
  then show ?thesis by (simp add: f x m)
qed

section \<open>Properties of the orchestrator\<close>








lemma wrap_signed_exact:
  assumes "x \<in> \<int>" "m \<in> \<int>" "- (2 ^ (b - 1)) \<le> m - x" "m - x < 2 ^ (b - 1)" "0 < b"
  shows "wrap (SInt b) (m - x) = m - x"
proof -
  obtain i j where x: "x = of_int i" and m: "m = of_int j" using assms by (auto elim!: Ints_cases)
  have f: "\<lfloor>m - x\<rfloor> = j - i" unfolding x m by (simp flip: of_int_diff)
  have "(of_int (- (2 ^ (b - 1))) :: rat) \<le> of_int (j - i)" using assms(3) by (simp add: x m)
  then have lo: "- (2 ^ (b - 1)) \<le> j - i" by (simp only: of_int_le_iff)
  have "(of_int (j - i) :: rat) < of_int (2 ^ (b - 1))" using assms(4) by (simp add: x m)
  then have hi: "j - i < 2 ^ (b - 1)" by (simp only: of_int_less_iff)
  have p: "(2::int) ^ b = 2 * 2 ^ (b - 1)" using assms(5) by (cases b) simp_all
  have "(j - i + 2 ^ (b - 1)) mod 2 ^ b = j - i + 2 ^ (b - 1)"
    using lo hi unfolding p by (intro mod_pos_pos_trivial) simp_all
  then show ?thesis by (simp add: f x m)
qed

lemma monochrome1_pipeline:
  assumes "PhotometricInterpretation ds = Some ''MONOCHROME1''" "ds_pixel_array ds = Inr p"
    and "data p \<noteq> []" "window_parameters ds aw = Inr (wc, ww)"
  shows "normalized_array_of ds aw =
           normalize_pixel_array
             (p\<lparr>data := map (\<lambda>x. wrap (dtype p) (Max (set (data p)) - x)) (data p)\<rparr>) wc ww"
proof -
  have "invert_pixels p =
      Inr (p\<lparr>data := map (\<lambda>x. wrap (dtype p) (Max (set (data p)) - x)) (data p)\<rparr>)"
    using assms(3) by (rule invert_pixels_nonempty)
  then show ?thesis
    using assms by (simp add: normalized_array_of_def photometric_pixels_def)
qed

lemma inversion_exact_unsigned:
  assumes "dtype p = UInt b" "\<forall>x \<in> set (data p). x \<in> \<int> \<and> 0 \<le> x \<and> x < 2 ^ b"
    and "x \<in> set (data p)"
  shows "wrap (dtype p) (Max (set (data p)) - x) = Max (set (data p)) - x"
proof -
  have ne: "set (data p) \<noteq> {}" using assms(3) by auto
  have m: "Max (set (data p)) \<in> set (data p)" using ne by (intro Max_in) simp_all
  have le: "x \<le> Max (set (data p))" using assms(3) by simp
  have "wrap (UInt b) (Max (set (data p)) - x) = Max (set (data p)) - x"
  proof (rule wrap_unsigned_exact)
    show "x \<in> \<int>" "0 \<le> x" using assms by blast+
    show "Max (set (data p)) \<in> \<int>" "Max (set (data p)) < 2 ^ b" using assms(2) m by blast+
    show "x \<le> Max (set (data p))" by (rule le)
  qed
  then show ?thesis using assms(1) by (simp only:)
qed

lemma inversion_order_example:
  "invert_then_window \<lparr>shape = [1, 3], dtype = UInt 16, data = [0, 100, 1000]\<rparr> 50 100 =
     Inr \<lparr>shape = [1, 3], dtype = UInt 8, data = [255, 255, 0]\<rparr>"
  "window_then_invert \<lparr>shape = [1, 3], dtype = UInt 16, data = [0, 100, 1000]\<rparr> 50 100 =
     Inr \<lparr>shape = [1, 3], dtype = UInt 8, data = [255, 0, 0]\<rparr>"
  by (simp_all add: invert_then_window_def window_then_invert_def invert_pixels_def
        scalar_minus_def normalize_compute)

section \<open>The claims\<close>

text \<open>
  C1. The specification states that \<^verbatim>\<open>normalize(p, c, w)\<close> equals the full-range
  normalization of the array clipped to \<open>[c - w//2, c + w//2]\<close>. The program rescales
  the clipped array against the window bounds, not against the minimum and maximum of
  the clipped array, so the two differ when the samples do not reach both bounds: for
  \<open>[[0, 100]]\<close> with center 50 and width 400 the program returns \<open>[[95, 159]]\<close>, the
  full-range normalization of the clipped array \<open>[[0, 255]]\<close>.
\<close>

theorem window_factors_through_clip_counterexample:
  "normalize_pixel_array \<lparr>shape = [1, 2], dtype = UInt 16, data = [0, 100]\<rparr> (Some 50) (Some 400) \<noteq>
   normalize_pixel_array
     (clip_to_window \<lparr>shape = [1, 2], dtype = UInt 16, data = [0, 100]\<rparr> 50 400) None None"
proof -
  have a: "normalize_pixel_array \<lparr>shape = [1, 2], dtype = UInt 16, data = [0, 100]\<rparr> (Some 50) (Some 400) =
             Inr \<lparr>shape = [1, 2], dtype = UInt 8, data = [95, 159]\<rparr>"
    by (simp add: normalize_compute)
  have b: "normalize_pixel_array
             (clip_to_window \<lparr>shape = [1, 2], dtype = UInt 16, data = [0, 100]\<rparr> 50 400) None None =
             Inr \<lparr>shape = [1, 2], dtype = UInt 8, data = [0, 255]\<rparr>"
    by (simp add: clip_to_window_def normalize_compute)
  show ?thesis unfolding a b by simp
qed


text \<open>
  C1, as the program has it. For a pixel array with at least one sample, the windowed
  normalization equals the full-range normalization of the clipped array when the
  window is degenerate (upper bound at most the lower bound), or when some sample lies
  at or below the lower bound and some sample at or above the upper bound, so that the
  clipped array attains both bounds.
\<close>

theorem window_factors_through_clip:
  assumes "data p \<noteq> []"
    and "fl (c + floordiv2 w) \<le> fl (c - floordiv2 w) \<or>
         ((\<exists>x \<in> set (data p). fl x \<le> fl (c - floordiv2 w)) \<and>
          (\<exists>x \<in> set (data p). fl (c + floordiv2 w) \<le> fl x))"
  shows "normalize_pixel_array p (Some c) (Some w) =
         normalize_pixel_array (clip_to_window p c w) None None"
proof -
  define lo where "lo = fl (c - floordiv2 w)"
  define hi where "hi = fl (c + floordiv2 w)"
  define q where "q = clip_to_window p c w"
  have q: "q = np_clip (astype_float64 p) lo hi" by (simp add: q_def clip_to_window_def lo_def hi_def)
  have qd: "data q = map (\<lambda>x. min (max x lo) hi) (map fl (data p))"
    by (simp add: q np_clip_def astype_float64_def)
  have qp: "q\<lparr>dtype := UInt 8, data := ys\<rparr> = p\<lparr>dtype := UInt 8, data := ys\<rparr>" for ys
    by (simp add: q np_clip_def astype_float64_def)
  have ne: "data q \<noteq> []" using assms(1) by (simp add: qd)
  have fq: "astype_float64 q = q" unfolding q lo_def hi_def by (rule astype_float64_clip)
  have left: "display_range (astype_float64 p) (Some c) (Some w) = Inr (q, lo, hi)"
    by (simp add: display_range_window q lo_def hi_def)
  have right: "display_range (astype_float64 q) None None = Inr (q, Min (set (data q)), Max (set (data q)))"
    unfolding fq using ne by (rule display_range_nonempty)
  show ?thesis
  proof (cases "lo < hi")
    case False
    then have le: "hi \<le> lo" by simp
    then have "data q = replicate (length (data p)) hi"
      by (simp add: q clip_inverted astype_float64_def)
    then have "set (data q) = {hi}" using assms(1) by auto
    then have "Max (set (data q)) \<le> Min (set (data q))" by simp
    then have "normalize_pixel_array q None None =
                 Inr (q\<lparr>dtype := UInt 8, data := replicate (length (data q)) 0\<rparr>)"
      by (rule normalize_degenerate [OF right])
    moreover have "normalize_pixel_array p (Some c) (Some w) =
                 Inr (p\<lparr>dtype := UInt 8, data := replicate (length (data p)) 0\<rparr>)"
      using left le by (rule normalize_degenerate)
    moreover have "length (data q) = length (data p)" by (simp add: qd)
    ultimately show ?thesis unfolding q_def [symmetric] by (simp add: qp)
  next
    case True
    with assms(2) obtain x y where x: "x \<in> set (data p)" "fl x \<le> lo"
      and y: "y \<in> set (data p)" "hi \<le> fl y"
      unfolding lo_def hi_def by auto
    have "Min (set (data q)) = lo"
      unfolding qd using True by (rule clipped_min [of _ _ "fl x"]) (use x in auto)
    moreover have "Max (set (data q)) = hi"
      unfolding qd using True by (rule clipped_max [of _ _ "fl y"]) (use y in auto)
    ultimately have right': "display_range (astype_float64 q) None None = Inr (q, lo, hi)"
      using right by simp
    show ?thesis
      using normalize_nondegenerate [OF left True] normalize_nondegenerate [OF right' True]
      unfolding q_def [symmetric] by (simp add: qp)
  qed
qed

theorem window_factors_through_clip_witness:
  "data \<lparr>shape = [1, 3], dtype = UInt 16, data = [0, 60, 1000]\<rparr> \<noteq> [] \<and>
   (\<exists>x \<in> set (data \<lparr>shape = [1, 3], dtype = UInt 16, data = [0, 60, 1000]\<rparr>).
      fl x \<le> fl (50 - floordiv2 100)) \<and>
   (\<exists>x \<in> set (data \<lparr>shape = [1, 3], dtype = UInt 16, data = [0, 60, 1000]\<rparr>).
      fl (50 + floordiv2 100) \<le> fl x) \<and>
   normalize_pixel_array \<lparr>shape = [1, 3], dtype = UInt 16, data = [0, 60, 1000]\<rparr> (Some 50) (Some 100) =
   normalize_pixel_array
     (clip_to_window \<lparr>shape = [1, 3], dtype = UInt 16, data = [0, 60, 1000]\<rparr> 50 100) None None"
proof -
  have v: "fl (50 - floordiv2 100) = 0" "fl (50 + floordiv2 100) = 100" "fl 1000 = 1000"
    by (simp_all add: floordiv2_def fl_compute)
  have a: "data \<lparr>shape = [1, 3], dtype = UInt 16, data = [0, 60, 1000]\<rparr> \<noteq> []" by simp
  have b: "\<exists>x \<in> set (data \<lparr>shape = [1, 3], dtype = UInt 16, data = [0, 60, 1000]\<rparr>).
      fl x \<le> fl (50 - floordiv2 100)"
    by (simp add: v)
  have c: "\<exists>x \<in> set (data \<lparr>shape = [1, 3], dtype = UInt 16, data = [0, 60, 1000]\<rparr>).
      fl (50 + floordiv2 100) \<le> fl x"
    by (simp add: v)
  from b c have "fl (50 + floordiv2 100) \<le> fl (50 - floordiv2 100) \<or>
         ((\<exists>x \<in> set (data \<lparr>shape = [1, 3], dtype = UInt 16, data = [0, 60, 1000]\<rparr>). fl x \<le> fl (50 - floordiv2 100)) \<and>
          (\<exists>x \<in> set (data \<lparr>shape = [1, 3], dtype = UInt 16, data = [0, 60, 1000]\<rparr>). fl (50 + floordiv2 100) \<le> fl x))"
    by blast
  from window_factors_through_clip [OF a this] a b c show ?thesis by blast
qed

text \<open>
  C2. If the display range that \<^verbatim>\<open>normalize_pixel_array\<close> computes is degenerate,
  \<open>img_max \<le> img_min\<close> (a constant array without windowing, or a window whose bounds
  meet or cross), the result is an array of zeros with the shape of the input.
\<close>

theorem degenerate_range_all_zero:
  assumes "display_range (astype_float64 p) wc ww = Inr (a, lo, hi)" "hi \<le> lo"
  shows "normalize_pixel_array p wc ww =
           Inr (p\<lparr>dtype := UInt 8, data := replicate (length (data p)) 0\<rparr>)"
  using assms by (rule normalize_degenerate)

theorem degenerate_range_all_zero_witness:
  "display_range (astype_float64 \<lparr>shape = [2, 2], dtype = UInt 16, data = [7, 7, 7, 7]\<rparr>) None None =
     Inr (\<lparr>shape = [2, 2], dtype = Float64, data = [7, 7, 7, 7]\<rparr>, 7, 7) \<and>
   (7::rat) \<le> 7 \<and>
   normalize_pixel_array \<lparr>shape = [2, 2], dtype = UInt 16, data = [7, 7, 7, 7]\<rparr> None None =
     Inr \<lparr>shape = [2, 2], dtype = UInt 8, data = [0, 0, 0, 0]\<rparr>"
proof -
  have d: "display_range (astype_float64 \<lparr>shape = [2, 2], dtype = UInt 16, data = [7, 7, 7, 7]\<rparr>) None None =
     Inr (\<lparr>shape = [2, 2], dtype = Float64, data = [7, 7, 7, 7]\<rparr>, 7, 7)"
    by (simp add: display_range_full astype_float64_def fl_int)
  show ?thesis
    using degenerate_range_all_zero [OF d] d by (simp add: numeral_eq_Suc)
qed

text \<open>
  C3. If the display range is not degenerate, \<open>img_min < img_max\<close>, every sample of the
  result is an integer between 0 and 255: the rescaled double lies in \<open>[0, 255]\<close> and
  the conversion to \<^verbatim>\<open>uint8\<close> takes its integer part. The mapping preserves order: where
  one input sample is at most another, so are the corresponding output samples.
\<close>

theorem output_in_range_and_monotone:
  assumes "display_range (astype_float64 p) wc ww = Inr (a, lo, hi)" "lo < hi"
  shows "\<exists>out. normalize_pixel_array p wc ww = Inr out \<and>
           length (data out) = length (data p) \<and> length (data a) = length (data p) \<and>
           (\<forall>i < length (data p).
              0 \<le> rescale_sample lo hi (data a ! i) \<and> rescale_sample lo hi (data a ! i) \<le> 255 \<and>
              data out ! i = of_int \<lfloor>rescale_sample lo hi (data a ! i)\<rfloor> \<and>
              data out ! i \<in> \<int> \<and> 0 \<le> data out ! i \<and> data out ! i \<le> 255) \<and>
           (\<forall>i < length (data p). \<forall>j < length (data p).
              data p ! i \<le> data p ! j \<longrightarrow> data out ! i \<le> data out ! j)"
proof -
  define g where "g x = (of_int (trunc (rescale_sample lo hi x) mod 256) :: rat)" for x
  define out where "out = p\<lparr>dtype := UInt 8, data := map g (data a)\<rparr>"
  have n: "normalize_pixel_array p wc ww = Inr out"
    unfolding out_def g_def using assms by (rule normalize_nondegenerate)
  obtain f where f: "data a = map f (map fl (data p))" "\<And>x y. x \<le> y \<Longrightarrow> f x \<le> f y"
    "\<And>x. x \<in> set (data p) \<Longrightarrow> lo \<le> f (fl x) \<and> f (fl x) \<le> hi"
    using display_range_samples [OF assms] by (auto simp: astype_float64_def)
  have la: "length (data a) = length (data p)" by (simp add: f(1))
  have r: "0 \<le> rescale_sample lo hi (data a ! i) \<and> rescale_sample lo hi (data a ! i) \<le> 255"
    if "i < length (data p)" for i
  proof -
    have "data a ! i = f (fl (data p ! i))" using that by (simp add: f(1))
    moreover have "data p ! i \<in> set (data p)" using that by simp
    ultimately show ?thesis using f(3) rescale_sample_range [OF assms(2)] by metis
  qed
  have v: "data out ! i = of_int \<lfloor>rescale_sample lo hi (data a ! i)\<rfloor>"
    if "i < length (data p)" for i
  proof -
    have "data out ! i = g (data a ! i)" using that la by (simp add: out_def)
    also have "\<dots> = of_int (trunc (rescale_sample lo hi (data a ! i)))"
      using r [OF that] by (simp add: g_def trunc_range)
    finally show ?thesis using r [OF that] by (simp add: trunc_def)
  qed
  have b: "data out ! i \<in> \<int> \<and> 0 \<le> data out ! i \<and> data out ! i \<le> 255"
    if "i < length (data p)" for i
  proof -
    have "\<lfloor>rescale_sample lo hi (data a ! i)\<rfloor> \<le> 255"
      using r [OF that] by (simp add: floor_le_iff)
    moreover have "0 \<le> \<lfloor>rescale_sample lo hi (data a ! i)\<rfloor>" using r [OF that] by simp
    ultimately show ?thesis by (simp add: v [OF that])
  qed
  have m: "data out ! i \<le> data out ! j"
    if "i < length (data p)" "j < length (data p)" "data p ! i \<le> data p ! j" for i j
  proof -
    have "f (fl (data p ! i)) \<le> f (fl (data p ! j))" using that(3) by (intro f(2) fl_mono)
    then have "data a ! i \<le> data a ! j" using that by (simp add: f(1))
    then have "rescale_sample lo hi (data a ! i) \<le> rescale_sample lo hi (data a ! j)"
      by (rule rescale_sample_mono [OF assms(2)])
    then have "\<lfloor>rescale_sample lo hi (data a ! i)\<rfloor> \<le> \<lfloor>rescale_sample lo hi (data a ! j)\<rfloor>"
      by (rule floor_mono)
    then show ?thesis by (simp add: v that)
  qed
  have "length (data out) = length (data p)" by (simp add: out_def la)
  with n la r v b m show ?thesis by blast
qed


theorem output_in_range_and_monotone_witness:
  "display_range (astype_float64 \<lparr>shape = [1, 3], dtype = UInt 16, data = [0, 60, 1000]\<rparr>)
       (Some 50) (Some 100) =
     Inr (\<lparr>shape = [1, 3], dtype = Float64, data = [0, 60, 100]\<rparr>, 0, 100) \<and>
   (0::rat) < 100 \<and>
   normalize_pixel_array \<lparr>shape = [1, 3], dtype = UInt 16, data = [0, 60, 1000]\<rparr>
       (Some 50) (Some 100) =
     Inr \<lparr>shape = [1, 3], dtype = UInt 8, data = [0, 153, 255]\<rparr> \<and>
   0 \<le> rescale_sample 0 100 60 \<and> rescale_sample 0 100 60 \<le> 255"
proof -
  have d: "display_range (astype_float64 \<lparr>shape = [1, 3], dtype = UInt 16, data = [0, 60, 1000]\<rparr>)
       (Some 50) (Some 100) =
     Inr (\<lparr>shape = [1, 3], dtype = Float64, data = [0, 60, 100]\<rparr>, 0, 100)"
    by (simp add: normalize_compute)
  have l: "(0::rat) < 100" by simp
  have n: "normalize_pixel_array \<lparr>shape = [1, 3], dtype = UInt 16, data = [0, 60, 1000]\<rparr>
       (Some 50) (Some 100) =
     Inr \<lparr>shape = [1, 3], dtype = UInt 8, data = [0, 153, 255]\<rparr>"
    by (simp add: normalize_compute)
  have i: "(1::nat) < length (data \<lparr>shape = [1, 3], dtype = UInt 16, data = [0, 60, 1000]\<rparr>)"
    by simp
  have e: "data \<lparr>shape = [1, 3], dtype = Float64, data = [0, 60, 100]\<rparr> ! 1 = 60" by simp
  have "0 \<le> rescale_sample 0 100
               (data \<lparr>shape = [1, 3], dtype = Float64, data = [0, 60, 100]\<rparr> ! 1) \<and>
        rescale_sample 0 100
               (data \<lparr>shape = [1, 3], dtype = Float64, data = [0, 60, 100]\<rparr> ! 1) \<le> 255"
    using output_in_range_and_monotone [OF d l] i by blast
  then have "0 \<le> rescale_sample 0 100 60 \<and> rescale_sample 0 100 60 \<le> 255"
    unfolding e .
  with d l n show ?thesis by blast
qed

text \<open>
  C4. The specification states that a window with \<open>img_min > img_max\<close> clamps every
  sample to \<open>img_min\<close>. \<^verbatim>\<open>np.clip\<close> is \<^verbatim>\<open>minimum(a_max, maximum(a, a_min))\<close>: the upper
  bound is applied last and wins. With center 0 and width -20 the bounds are 10 and -10
  and every sample becomes -10, not 10.
\<close>

theorem inverted_window_clips_to_lower_bound_counterexample:
  "display_range (astype_float64 \<lparr>shape = [1, 2], dtype = UInt 16, data = [0, 100]\<rparr>)
       (Some 0) (Some (- 20)) =
     Inr (\<lparr>shape = [1, 2], dtype = Float64, data = [- 10, - 10]\<rparr>, 10, - 10) \<and>
   (- 10 :: rat) < 10 \<and>
   data \<lparr>shape = [1, 2], dtype = Float64, data = [- 10, - 10]\<rparr> \<noteq> [10, 10]"
  by (simp add: normalize_compute)

text \<open>
  C4, as the program has it. When the window bounds are inverted,
  \<open>img_max < img_min\<close>, the clip step sets every sample to \<open>img_max\<close>, and the normalizer
  returns an array of zeros.
\<close>

theorem inverted_window_clips_to_upper_bound:
  assumes "fl (c + floordiv2 w) < fl (c - floordiv2 w)"
  shows "display_range (astype_float64 p) (Some c) (Some w) =
           Inr (p\<lparr>dtype := Float64, data := replicate (length (data p)) (fl (c + floordiv2 w))\<rparr>,
                fl (c - floordiv2 w), fl (c + floordiv2 w)) \<and>
         normalize_pixel_array p (Some c) (Some w) =
           Inr (p\<lparr>dtype := UInt 8, data := replicate (length (data p)) 0\<rparr>)"
proof
  have le: "fl (c + floordiv2 w) \<le> fl (c - floordiv2 w)" using assms by (rule less_imp_le)
  then show "display_range (astype_float64 p) (Some c) (Some w) =
           Inr (p\<lparr>dtype := Float64, data := replicate (length (data p)) (fl (c + floordiv2 w))\<rparr>,
                fl (c - floordiv2 w), fl (c + floordiv2 w))"
    by (simp add: display_range_window clip_inverted) (simp add: astype_float64_def)
  show "normalize_pixel_array p (Some c) (Some w) =
           Inr (p\<lparr>dtype := UInt 8, data := replicate (length (data p)) 0\<rparr>)"
    using display_range_window le by (rule normalize_degenerate)
qed

theorem inverted_window_clips_to_upper_bound_witness:
  "fl (0 + floordiv2 (- 20)) < fl (0 - floordiv2 (- 20)) \<and>
   display_range (astype_float64 \<lparr>shape = [1, 2], dtype = UInt 16, data = [0, 100]\<rparr>)
       (Some 0) (Some (- 20)) =
     Inr (\<lparr>shape = [1, 2], dtype = Float64, data = [- 10, - 10]\<rparr>, 10, - 10) \<and>
   normalize_pixel_array \<lparr>shape = [1, 2], dtype = UInt 16, data = [0, 100]\<rparr> (Some 0) (Some (- 20)) =
     Inr \<lparr>shape = [1, 2], dtype = UInt 8, data = [0, 0]\<rparr>"
proof -
  have h: "fl (0 + floordiv2 (- 20)) < fl (0 - floordiv2 (- 20))"
    by (simp add: floordiv2_def fl_compute)
  have v: "fl (0 + floordiv2 (- 20)) = - 10" "fl (0 - floordiv2 (- 20)) = 10"
    by (simp_all add: floordiv2_def fl_compute)
  show ?thesis
    using inverted_window_clips_to_upper_bound [OF h, of "\<lparr>shape = [1, 2], dtype = UInt 16, data = [0, 100]\<rparr>"] h
    unfolding v by (simp add: numeral_2_eq_2)
qed

text \<open>
  C5. For a \<^verbatim>\<open>MONOCHROME1\<close> dataset the program computes
  \<^verbatim>\<open>np.max(pixel_array) - pixel_array\<close> on the decoded array, before any windowing, and
  the order is observable: for \<open>[[0, 100, 1000]]\<close> with center 50 and width 100,
  inverting first gives \<open>[[255, 255, 0]]\<close> and windowing first \<open>[[255, 0, 0]]\<close>. The
  subtraction runs in the element type of the array. For a signed array whose maximum
  and minimum are further apart than the type can hold it wraps around, and the result
  is not \<open>max(pixels) - pixels\<close>: the \<^verbatim>\<open>int16\<close> array \<open>[[-20000, 0, 20000]]\<close> becomes
  \<open>[[-25536, 20000, 0]]\<close> instead of \<open>[[40000, 20000, 0]]\<close>, and is normalized to
  \<open>[[0, 255, 143]]\<close> where the inverted image is \<open>[[255, 127, 0]]\<close>.
\<close>

theorem monochrome1_inversion_wraps_signed:
  "invert_pixels \<lparr>shape = [1, 3], dtype = SInt 16, data = [- 20000, 0, 20000]\<rparr> =
     Inr \<lparr>shape = [1, 3], dtype = SInt 16, data = [- 25536, 20000, 0]\<rparr> \<and>
   map (\<lambda>x. 20000 - x) [- 20000, 0, 20000 :: rat] = [40000, 20000, 0] \<and>
   normalized_array_of
     \<lparr>ds_pixel_array = Inr \<lparr>shape = [1, 3], dtype = SInt 16, data = [- 20000, 0, 20000]\<rparr>,
      PhotometricInterpretation = Some ''MONOCHROME1'',
      WindowCenter = None, WindowWidth = None\<rparr> True =
     Inr \<lparr>shape = [1, 3], dtype = UInt 8, data = [0, 255, 143]\<rparr> \<and>
   normalize_pixel_array \<lparr>shape = [1, 3], dtype = SInt 32, data = [40000, 20000, 0]\<rparr> None None =
     Inr \<lparr>shape = [1, 3], dtype = UInt 8, data = [255, 127, 0]\<rparr> \<and>
   invert_then_window \<lparr>shape = [1, 3], dtype = UInt 16, data = [0, 100, 1000]\<rparr> 50 100 \<noteq>
   window_then_invert \<lparr>shape = [1, 3], dtype = UInt 16, data = [0, 100, 1000]\<rparr> 50 100"
proof -
  have i: "invert_pixels \<lparr>shape = [1, 3], dtype = SInt 16, data = [- 20000, 0, 20000]\<rparr> =
     Inr \<lparr>shape = [1, 3], dtype = SInt 16, data = [- 25536, 20000, 0]\<rparr>"
    by (simp add: invert_pixels_def ndarray_max_def scalar_minus_def)
  have n: "normalize_pixel_array \<lparr>shape = [1, 3], dtype = SInt 16, data = [- 25536, 20000, 0]\<rparr>
             None None =
           Inr \<lparr>shape = [1, 3], dtype = UInt 8, data = [0, 255, 143]\<rparr>"
    by (simp add: normalize_compute)
  have d: "normalized_array_of
     \<lparr>ds_pixel_array = Inr \<lparr>shape = [1, 3], dtype = SInt 16, data = [- 20000, 0, 20000]\<rparr>,
      PhotometricInterpretation = Some ''MONOCHROME1'',
      WindowCenter = None, WindowWidth = None\<rparr> True =
     Inr \<lparr>shape = [1, 3], dtype = UInt 8, data = [0, 255, 143]\<rparr>"
    using i n by (simp add: normalized_array_of_def photometric_pixels_def window_parameters_def)
  have e: "normalize_pixel_array \<lparr>shape = [1, 3], dtype = SInt 32, data = [40000, 20000, 0]\<rparr> None None =
     Inr \<lparr>shape = [1, 3], dtype = UInt 8, data = [255, 127, 0]\<rparr>"
    by (simp add: normalize_compute)
  have o: "invert_then_window \<lparr>shape = [1, 3], dtype = UInt 16, data = [0, 100, 1000]\<rparr> 50 100 \<noteq>
           window_then_invert \<lparr>shape = [1, 3], dtype = UInt 16, data = [0, 100, 1000]\<rparr> 50 100"
    unfolding inversion_order_example by simp
  show ?thesis using i d e o by simp
qed


text \<open>
  C6. With windowing enabled and both \<^verbatim>\<open>WindowCenter\<close> and \<^verbatim>\<open>WindowWidth\<close> present, a
  multi-valued field contributes its first element only, a single-valued field its
  value, and these are the parameters the normalizer is called with. For center
  \<open>[40, 400]\<close> and width \<open>[80, 1]\<close> the normalizer is called with 40 and 80.
\<close>

theorem multi_valued_window_first_element:
  assumes "WindowCenter ds = Some cv" and "WindowWidth ds = Some wv"
    and "cv = Scalar c \<or> (\<exists>cs. cv = MultiValue (c # cs))"
    and "wv = Scalar w \<or> (\<exists>ws. wv = MultiValue (w # ws))"
  shows "window_parameters ds True = Inr (Some c, Some w) \<and>
         normalized_array_of ds True =
           (case ds_pixel_array ds of
              Inl e \<Rightarrow> Inl e
            | Inr pixel_array \<Rightarrow>
                (case photometric_pixels ds pixel_array of
                   Inl e \<Rightarrow> Inl e
                 | Inr pixel_array' \<Rightarrow> normalize_pixel_array pixel_array' (Some c) (Some w)))"
proof -
  have "window_parameters ds True = Inr (Some c, Some w)"
    using assms by (auto simp: window_parameters_def)
  then show ?thesis
    by (simp add: normalized_array_of_def split: sum.splits)
qed

theorem multi_valued_window_first_element_witness:
  "window_parameters \<lparr>ds_pixel_array = Inr \<lparr>shape = [1, 2], dtype = UInt 16, data = [0, 100]\<rparr>,
                       PhotometricInterpretation = Some ''MONOCHROME2'',
                       WindowCenter = Some (MultiValue [40, 400]),
                       WindowWidth = Some (MultiValue [80, 1])\<rparr> True = Inr (Some 40, Some 80) \<and>
   normalized_array_of \<lparr>ds_pixel_array = Inr \<lparr>shape = [1, 2], dtype = UInt 16, data = [0, 100]\<rparr>,
                         PhotometricInterpretation = Some ''MONOCHROME2'',
                         WindowCenter = Some (MultiValue [40, 400]),
                         WindowWidth = Some (MultiValue [80, 1])\<rparr> True =
     normalize_pixel_array \<lparr>shape = [1, 2], dtype = UInt 16, data = [0, 100]\<rparr> (Some 40) (Some 80)"
proof -
  have c: "MultiValue [40, 400] = Scalar 40 \<or> (\<exists>cs. MultiValue [40, 400] = MultiValue (40 # cs))"
    by simp
  have w: "MultiValue [80, 1] = Scalar 80 \<or> (\<exists>ws. MultiValue [80, 1] = MultiValue (80 # ws))"
    by simp
  show ?thesis
    using multi_valued_window_first_element
      [of "\<lparr>ds_pixel_array = Inr \<lparr>shape = [1, 2], dtype = UInt 16, data = [0, 100]\<rparr>,
            PhotometricInterpretation = Some ''MONOCHROME2'',
            WindowCenter = Some (MultiValue [40, 400]),
            WindowWidth = Some (MultiValue [80, 1])\<rparr>"
          "MultiValue [40, 400]" "MultiValue [80, 1]" 40 80, OF _ _ c w]
    by (simp add: photometric_pixels_def)
qed

text \<open>
  C7. Whatever the pixel array and the window parameters, the array that
  \<^verbatim>\<open>normalize_pixel_array\<close> returns has the shape, and the number of samples, of its
  input. It returns an array unless the input has no samples and no window is given:
  then \<^verbatim>\<open>pixel_array.min()\<close> raises \<^verbatim>\<open>ValueError\<close>.
\<close>

theorem normalize_preserves_shape:
  "(\<forall>out. normalize_pixel_array p wc ww = Inr out \<longrightarrow>
      shape out = shape p \<and> length (data out) = length (data p)) \<and>
   (data p \<noteq> [] \<or> (wc \<noteq> None \<and> ww \<noteq> None) \<longrightarrow>
      (\<exists>out. normalize_pixel_array p wc ww = Inr out)) \<and>
   (data p = [] \<and> (wc = None \<or> ww = None) \<longrightarrow>
      normalize_pixel_array p wc ww = Inl ValueError)"
proof (intro conjI allI impI)
  fix out assume n: "normalize_pixel_array p wc ww = Inr out"
  then obtain a lo hi where d: "display_range (astype_float64 p) wc ww = Inr (a, lo, hi)"
    by (auto simp: normalize_pixel_array_def split: sum.splits)
  have la: "length (data a) = length (data p)"
    using display_range_array [OF d] by (auto simp: astype_float64_def)
  have "out = p\<lparr>dtype := UInt 8,
                  data := (if lo < hi
                           then map (\<lambda>x. of_int (trunc (rescale_sample lo hi x) mod 256)) (data a)
                           else replicate (length (data p)) 0)\<rparr>"
    using normalize_of_range [OF d] n by simp
  then show "shape out = shape p" "length (data out) = length (data p)"
    using la by simp_all
next
  assume "data p \<noteq> [] \<or> (wc \<noteq> None \<and> ww \<noteq> None)"
  then obtain a lo hi where "display_range (astype_float64 p) wc ww = Inr (a, lo, hi)"
    using display_range_defined by blast
  then show "\<exists>out. normalize_pixel_array p wc ww = Inr out"
    using normalize_of_range by blast
next
  assume "data p = [] \<and> (wc = None \<or> ww = None)"
  then show "normalize_pixel_array p wc ww = Inl ValueError"
    by (simp add: display_range_undefined)
qed

theorem normalize_preserves_shape_witness:
  "normalize_pixel_array \<lparr>shape = [1, 2], dtype = UInt 16, data = [0, 100]\<rparr> (Some 50) (Some 100) =
     Inr \<lparr>shape = [1, 2], dtype = UInt 8, data = [0, 255]\<rparr> \<and>
   shape \<lparr>shape = [1, 2], dtype = UInt 8, data = [0, 255]\<rparr> =
     shape \<lparr>shape = [1, 2], dtype = UInt 16, data = [0, 100]\<rparr> \<and>
   normalize_pixel_array \<lparr>shape = [0, 4], dtype = UInt 16, data = []\<rparr> None None = Inl ValueError"
proof -
  have n: "normalize_pixel_array \<lparr>shape = [1, 2], dtype = UInt 16, data = [0, 100]\<rparr> (Some 50) (Some 100) =
     Inr \<lparr>shape = [1, 2], dtype = UInt 8, data = [0, 255]\<rparr>"
    by (simp add: normalize_compute)
  show ?thesis
    using n normalize_preserves_shape [of "\<lparr>shape = [1, 2], dtype = UInt 16, data = [0, 100]\<rparr>" "Some 50" "Some 100"]
      normalize_preserves_shape [of "\<lparr>shape = [0, 4], dtype = UInt 16, data = []\<rparr>" None None]
    by simp
qed

text \<open>
  C8. Without window parameters, the array \<open>[[0, 128], [128, 255]]\<close> is normalized to
  itself. The conversion to \<^verbatim>\<open>uint8\<close> discards the fractional part and does not round:
  in \<open>[[0, 1, 2]]\<close> the sample 1 is rescaled to 127.5 and becomes 127.
\<close>

theorem full_range_example:
  "normalize_pixel_array \<lparr>shape = [2, 2], dtype = UInt 8, data = [0, 128, 128, 255]\<rparr> None None =
     Inr \<lparr>shape = [2, 2], dtype = UInt 8, data = [0, 128, 128, 255]\<rparr> \<and>
   rescale_sample 0 2 1 = 255 / 2 \<and>
   normalize_pixel_array \<lparr>shape = [1, 3], dtype = UInt 8, data = [0, 1, 2]\<rparr> None None =
     Inr \<lparr>shape = [1, 3], dtype = UInt 8, data = [0, 127, 255]\<rparr>"
  by (simp add: normalize_compute)



text \<open>
  C10. Whatever the pixels and the window center, a window width below 2 (0, 1, a
  fraction below 2, any negative width) makes \<open>img_max \<le> img_min\<close>, because both bounds
  use \<^verbatim>\<open>window_width // 2\<close>, and the result is an array of zeros: a width of 1 blanks
  the image.
\<close>

theorem narrow_window_blanks_image:
  assumes "w < 2"
  shows "normalize_pixel_array p (Some c) (Some w) =
           Inr (p\<lparr>dtype := UInt 8, data := replicate (length (data p)) 0\<rparr>)"
  using display_range_window window_below_two [OF assms] by (rule normalize_degenerate)

theorem narrow_window_blanks_image_witness:
  "(1::rat) < 2 \<and>
   normalize_pixel_array \<lparr>shape = [1, 3], dtype = UInt 16, data = [0, 40, 1000]\<rparr> (Some 40) (Some 1) =
     Inr \<lparr>shape = [1, 3], dtype = UInt 8, data = [0, 0, 0]\<rparr>"
  using narrow_window_blanks_image [of 1 "\<lparr>shape = [1, 3], dtype = UInt 16, data = [0, 40, 1000]\<rparr>" 40]
  by (simp add: numeral_3_eq_3)

end
